theory Spec2Isabelle
  imports Main "HOL-Library.Sublist" "HOL-Library.Monad_Syntax"
begin

section \<open>SMEM parity validator (scripts/smem_parity.py)\<close>

text \<open>
  Python text is modelled as \<^typ>\<open>string\<close>: a list of characters, each one a code point
  below 256. The character classes of the interpreter (what \<^verbatim>\<open>str.strip\<close>,
  \<^verbatim>\<open>str.splitlines\<close> and the \<^verbatim>\<open>re\<close> classes \<^verbatim>\<open>\s\<close>, \<^verbatim>\<open>\d\<close> and \<^verbatim>\<open>.\<close> accept) are
  written out for that range.
\<close>

subsection \<open>String primitives of the interpreter\<close>

definition LF :: char where
  "LF = CHR 0x0A"

definition CR :: char where
  "CR = CHR 0x0D"

definition DQ :: char where
  "DQ = CHR 0x22"

text \<open>\<^verbatim>\<open>str.isspace\<close> on one character; also the class \<^verbatim>\<open>\s\<close> of a text pattern.\<close>

definition is_space :: "char \<Rightarrow> bool" where
  "is_space c = (c \<in> set [CHR 0x09, CHR 0x0A, CHR 0x0B, CHR 0x0C, CHR 0x0D,
                            CHR 0x1C, CHR 0x1D, CHR 0x1E, CHR 0x1F, CHR 0x20,
                            CHR 0x85, CHR 0xA0])"

text \<open>The line boundaries of \<^verbatim>\<open>str.splitlines\<close> (CR LF counts as one boundary).\<close>

definition is_linebreak :: "char \<Rightarrow> bool" where
  "is_linebreak c = (c \<in> set [CHR 0x0A, CHR 0x0B, CHR 0x0C, CHR 0x0D,
                                CHR 0x1C, CHR 0x1D, CHR 0x1E, CHR 0x85])"

text \<open>The class \<^verbatim>\<open>\d\<close>: the decimal digits.\<close>

definition is_digit :: "char \<Rightarrow> bool" where
  "is_digit c = (c \<in> set ''0123456789'')"

definition startswith :: "string \<Rightarrow> string \<Rightarrow> bool" where
  "startswith p s = (take (length p) s = p)"

definition endswith :: "string \<Rightarrow> string \<Rightarrow> bool" where
  "endswith p s = (length p \<le> length s \<and> drop (length s - length p) s = p)"

text \<open>\<^verbatim>\<open>sub in s\<close> for two strings.\<close>

fun contains :: "string \<Rightarrow> string \<Rightarrow> bool" where
  "contains sub [] = (sub = [])"
| "contains sub (c # cs) = (startswith sub (c # cs) \<or> contains sub cs)"

text \<open>\<^verbatim>\<open>s.strip()\<close>: leading and trailing white space removed.\<close>

definition strip :: "string \<Rightarrow> string" where
  "strip s = rev (dropWhile is_space (rev (dropWhile is_space s)))"

text \<open>
  \<^verbatim>\<open>s.splitlines()\<close>: the first argument is the line read so far. A boundary closes the
  line, also an empty one; what is left at the end is a line only if it is not empty.
\<close>

fun splitlines_aux :: "string \<Rightarrow> string \<Rightarrow> string list" where
  "splitlines_aux cur [] = (if cur = [] then [] else [cur])"
| "splitlines_aux cur [c] =
     (if is_linebreak c then [cur] else [cur @ [c]])"
| "splitlines_aux cur (c # d # cs) =
     (if c = CR \<and> d = LF then cur # splitlines_aux [] cs
      else if is_linebreak c then cur # splitlines_aux [] (d # cs)
      else splitlines_aux (cur @ [c]) (d # cs))"

definition splitlines :: "string \<Rightarrow> string list" where
  "splitlines s = splitlines_aux [] s"

text \<open>\<^verbatim>\<open>"\n".join(xs)\<close>.\<close>

fun join_nl :: "string list \<Rightarrow> string" where
  "join_nl [] = []"
| "join_nl [x] = x"
| "join_nl (x # y # ys) = x @ LF # join_nl (y # ys)"

text \<open>\<^verbatim>\<open>str(n)\<close> for an integer: decimal digits, a minus sign when negative.\<close>

definition digit_char :: "nat \<Rightarrow> char" where
  "digit_char d = ''0123456789'' ! (d mod 10)"

fun str_nat :: "nat \<Rightarrow> string" where
  "str_nat n = (if n < 10 then [digit_char n] else str_nat (n div 10) @ [digit_char (n mod 10)])"

declare str_nat.simps [simp del]

definition str_int :: "int \<Rightarrow> string" where
  "str_int i = (if i < 0 then CHR ''-'' # str_nat (nat (- i)) else str_nat (nat i))"

subsection \<open>traffic_type\<close>

text \<open>
  \<^verbatim>\<open>name.split("(", 1)[0]\<close> is the text before the first parenthesis;
  \<^verbatim>\<open>name.rsplit("_", 1)[0]\<close> is the text before the last underscore, and the whole
  name when it has none.
\<close>

definition split_first :: "char \<Rightarrow> string \<Rightarrow> string" where
  "split_first c s = takeWhile (\<lambda>x. x \<noteq> c) s"

definition rsplit_first :: "char \<Rightarrow> string \<Rightarrow> string" where
  "rsplit_first c s =
     (if c \<in> set s then rev (tl (dropWhile (\<lambda>x. x \<noteq> c) (rev s))) else s)"

definition traffic_type :: "string \<Rightarrow> string" where
  "traffic_type pattern_name =
     (if CHR ''('' \<in> set pattern_name then split_first (CHR ''('') pattern_name
      else rsplit_first (CHR ''_'') pattern_name)"

subsection \<open>append_traffic_file_to_config\<close>

datatype config_error = DuplicateSection

definition append_traffic_file_to_config :: "string \<Rightarrow> string \<Rightarrow> config_error + string" where
  "append_traffic_file_to_config base_text traffic_file_rel =
     (if contains ''[traffic]'' base_text then Inl DuplicateSection
      else
        let text1 = (if \<not> endswith [LF] base_text then base_text @ [LF] else base_text);
            text2 = text1 @ [LF] @ ''[traffic]'' @ [LF];
            text3 = text2 @ ''file = '' @ [DQ] @ traffic_file_rel @ [DQ] @ [LF]
        in Inr text3)"

subsection \<open>override_sim_timeout\<close>

definition timeout_line :: "int \<Rightarrow> string" where
  "timeout_line timeout_cycles = ''timeout = '' @ str_int timeout_cycles"

text \<open>
  The first loop (lines 78 to 88): the state is \<open>in_sim\<close>, \<open>replaced\<close> and the list \<open>out\<close>;
  the result is \<open>out\<close> and \<open>replaced\<close> after the last line.
\<close>

fun replace_loop ::
  "int \<Rightarrow> bool \<Rightarrow> bool \<Rightarrow> string list \<Rightarrow> string list \<Rightarrow> string list \<times> bool" where
  "replace_loop t in_sim replaced out [] = (out, replaced)"
| "replace_loop t in_sim replaced out (line # rest) =
     (let stripped = strip line in
      if startswith ''['' stripped \<and> endswith '']'' stripped
      then replace_loop t (stripped = ''[sim]'') replaced (out @ [line]) rest
      else if in_sim \<and> startswith ''timeout'' stripped
      then replace_loop t in_sim True (out @ [timeout_line t]) rest
      else replace_loop t in_sim replaced (out @ [line]) rest)"

text \<open>
  The second loop (lines 94 to 106), run when nothing was replaced: the state is \<open>in_sim\<close>,
  \<open>inserted\<close> and the list \<open>rebuilt\<close>.
\<close>

fun insert_loop ::
  "int \<Rightarrow> bool \<Rightarrow> bool \<Rightarrow> string list \<Rightarrow> string list \<Rightarrow> string list" where
  "insert_loop t in_sim inserted rebuilt [] =
     (if in_sim \<and> \<not> inserted then rebuilt @ [timeout_line t] else rebuilt)"
| "insert_loop t in_sim inserted rebuilt (line # rest) =
     (let stripped = strip line in
      if stripped = ''[sim]''
      then insert_loop t True inserted (rebuilt @ [line]) rest
      else if in_sim \<and> startswith ''['' stripped \<and> endswith '']'' stripped \<and> \<not> inserted
      then insert_loop t False True (rebuilt @ [timeout_line t] @ [line]) rest
      else insert_loop t in_sim inserted (rebuilt @ [line]) rest)"

definition override_lines :: "int \<Rightarrow> string list \<Rightarrow> string list" where
  "override_lines t lines =
     (case replace_loop t False False [] lines of
        (out, replaced) \<Rightarrow> if \<not> replaced then insert_loop t False False [] out else out)"

definition override_sim_timeout :: "string \<Rightarrow> int \<Rightarrow> string" where
  "override_sim_timeout base_text timeout_cycles =
     join_nl (override_lines timeout_cycles (splitlines base_text))
       @ (if endswith [LF] base_text then [LF] else [])"

subsection \<open>TRAFFIC_LINE_RE and parse_traffic_lines\<close>

text \<open>
  The pattern is matched by backtracking. Each piece of the pattern maps the text left to
  read to the list of its possible matches, the one the matcher tries first at the head:
  a greedy repetition offers its longest match first, a lazy one its shortest. A sequence
  of pieces is the list monad, so the head of the final list is the match that the
  backtracking matcher returns.
\<close>

type_synonym piece = "string \<Rightarrow> (string \<times> string) list"

definition lit :: "string \<Rightarrow> piece" where
  "lit p s = (if startswith p s then [(p, drop (length p) s)] else [])"

definition cuts :: "nat list \<Rightarrow> piece" where
  "cuts ns s = map (\<lambda>n. (take n s, drop n s)) ns"


definition greedy_star :: "(char \<Rightarrow> bool) \<Rightarrow> piece" where
  "greedy_star P s = cuts (rev [0 ..< Suc (length (takeWhile P s))]) s"










record traffic_line =
  pattern_name :: string
  cycle :: int



subsection \<open>The comparison of main (lines 219 to 247)\<close>

datatype compare_error =
  CountMismatch nat nat
| OrderMismatch nat string string

record report_row =
  row_idx :: nat
  row_ttype :: string
  row_pattern :: string
  row_rtl :: int
  row_cyclotron :: int
  row_error :: int
  row_accum_abs_err :: int
  row_accum_type_abs_err :: int

record report =
  report_rows :: "report_row list"
  final_accum_abs_err :: int
  final_accum_by_type :: "string \<rightharpoonup> int"

text \<open>\<^verbatim>\<open>defaultdict(int)\<close>: a key that was never written reads as 0.\<close>

definition dd_get :: "(string \<rightharpoonup> int) \<Rightarrow> string \<Rightarrow> int" where
  "dd_get m k = (case m k of None \<Rightarrow> 0 | Some v \<Rightarrow> v)"

text \<open>
  The loop over \<^verbatim>\<open>enumerate(zip(ref, cand))\<close>: the state is the index, the two
  accumulators and the rows printed so far.
\<close>

fun compare_loop ::
  "nat \<Rightarrow> int \<Rightarrow> (string \<rightharpoonup> int) \<Rightarrow> report_row list \<Rightarrow>
   (traffic_line \<times> traffic_line) list \<Rightarrow> compare_error + report" where
  "compare_loop idx accum_abs_err accum_by_type printed [] =
     Inr \<lparr>report_rows = printed, final_accum_abs_err = accum_abs_err,
          final_accum_by_type = accum_by_type\<rparr>"
| "compare_loop idx accum_abs_err accum_by_type printed ((r, c) # rest) =
     (if pattern_name r \<noteq> pattern_name c
      then Inl (OrderMismatch idx (pattern_name r) (pattern_name c))
      else
        let error = cycle c - cycle r;
            abs_error = \<bar>error\<bar>;
            accum_abs_err' = accum_abs_err + abs_error;
            ttype = traffic_type (pattern_name r);
            accum_by_type' = accum_by_type(ttype \<mapsto> dd_get accum_by_type ttype + abs_error);
            row = \<lparr>row_idx = idx, row_ttype = ttype, row_pattern = pattern_name r,
                   row_rtl = cycle r, row_cyclotron = cycle c, row_error = error,
                   row_accum_abs_err = accum_abs_err',
                   row_accum_type_abs_err = dd_get accum_by_type' ttype\<rparr>
        in compare_loop (Suc idx) accum_abs_err' accum_by_type' (printed @ [row]) rest)"

definition compare :: "traffic_line list \<Rightarrow> traffic_line list \<Rightarrow> compare_error + report" where
  "compare ref cand =
     (if length ref \<noteq> length cand then Inl (CountMismatch (length ref) (length cand))
      else compare_loop 0 0 Map.empty [] (zip ref cand))"

subsection \<open>The operations as the specification words them\<close>

text \<open>
  The specification's \<open>appendSection\<close>: the document is first made to end with exactly one
  newline, then a blank line, the header and the quoted value follow.
\<close>

definition ensure_one_newline :: "string \<Rightarrow> string" where
  "ensure_one_newline doc = rev (dropWhile (\<lambda>c. c = LF) (rev doc)) @ [LF]"

definition appendSection_spec :: "string \<Rightarrow> string \<Rightarrow> string" where
  "appendSection_spec doc v =
     ensure_one_newline doc @ [LF] @ ''[traffic]'' @ [LF]
       @ ''file = '' @ [DQ] @ v @ [DQ] @ [LF]"



subsection \<open>The two loops of override_sim_timeout, line by line\<close>

text \<open>
  The same loops written without the accumulating lists: what the first loop appends for
  each line, whether it replaces any line, and what the second loop appends.
\<close>

definition is_header :: "string \<Rightarrow> bool" where
  "is_header stripped = (startswith ''['' stripped \<and> endswith '']'' stripped)"

fun replace_lines :: "int \<Rightarrow> bool \<Rightarrow> string list \<Rightarrow> string list" where
  "replace_lines t in_sim [] = []"
| "replace_lines t in_sim (line # rest) =
     (if is_header (strip line) then line # replace_lines t (strip line = ''[sim]'') rest
      else if in_sim \<and> startswith ''timeout'' (strip line)
      then timeout_line t # replace_lines t in_sim rest
      else line # replace_lines t in_sim rest)"

fun any_replaced :: "bool \<Rightarrow> string list \<Rightarrow> bool" where
  "any_replaced in_sim [] = False"
| "any_replaced in_sim (line # rest) =
     (if is_header (strip line) then any_replaced (strip line = ''[sim]'') rest
      else if in_sim \<and> startswith ''timeout'' (strip line) then True
      else any_replaced in_sim rest)"

fun insert_lines :: "int \<Rightarrow> bool \<Rightarrow> bool \<Rightarrow> string list \<Rightarrow> string list" where
  "insert_lines t in_sim inserted [] = (if in_sim \<and> \<not> inserted then [timeout_line t] else [])"
| "insert_lines t in_sim inserted (line # rest) =
     (if strip line = ''[sim]'' then line # insert_lines t True inserted rest
      else if in_sim \<and> is_header (strip line) \<and> \<not> inserted
      then timeout_line t # line # insert_lines t False True rest
      else line # insert_lines t in_sim inserted rest)"

text \<open>
  The value of \<open>in_sim\<close> after the first loop has read some lines: whether the last
  header line among them is \<open>[sim]\<close>. A line is a target of the first loop when it is
  not a header, stands in the \<open>[sim]\<close> section and starts, trimmed, with \<open>timeout\<close>.
\<close>

fun in_sim_after :: "bool \<Rightarrow> string list \<Rightarrow> bool" where
  "in_sim_after in_sim [] = in_sim"
| "in_sim_after in_sim (line # rest) =
     in_sim_after (if is_header (strip line) then strip line = ''[sim]'' else in_sim) rest"

definition is_target :: "string list \<Rightarrow> string \<Rightarrow> bool" where
  "is_target before line =
     (\<not> is_header (strip line) \<and> in_sim_after False before
      \<and> startswith ''timeout'' (strip line))"

text \<open>
  The specification's reading of the first loop, in which only the first matching line
  of the section is replaced.
\<close>

fun replace_first_loop ::
  "int \<Rightarrow> bool \<Rightarrow> bool \<Rightarrow> string list \<Rightarrow> string list \<Rightarrow> string list \<times> bool" where
  "replace_first_loop t in_sim replaced out [] = (out, replaced)"
| "replace_first_loop t in_sim replaced out (line # rest) =
     (let stripped = strip line in
      if startswith ''['' stripped \<and> endswith '']'' stripped
      then replace_first_loop t (stripped = ''[sim]'') replaced (out @ [line]) rest
      else if in_sim \<and> startswith ''timeout'' stripped \<and> \<not> replaced
      then replace_first_loop t in_sim True (out @ [timeout_line t]) rest
      else replace_first_loop t in_sim replaced (out @ [line]) rest)"

text \<open>A text without any line boundary, as every line of \<^verbatim>\<open>splitlines\<close> is.\<close>

definition linefree :: "string \<Rightarrow> bool" where
  "linefree s = (\<forall>c \<in> set s. \<not> is_linebreak c)"

section \<open>Properties\<close>

subsection \<open>Strings\<close>

lemma startswith_iff: "startswith p s \<longleftrightarrow> (\<exists>post. s = p @ post)"
  unfolding startswith_def by (metis append_eq_conv_conj append_take_drop_id)

lemma contains_iff: "contains sub s \<longleftrightarrow> (\<exists>pre post. s = pre @ sub @ post)"
proof (induction s)
  case Nil
  then show ?case by auto
next
  case (Cons c cs)
  show ?case
  proof
    assume "contains sub (c # cs)"
    then consider "startswith sub (c # cs)" | "contains sub cs" by auto
    then show "\<exists>pre post. c # cs = pre @ sub @ post"
    proof cases
      case 1
      then obtain post where "c # cs = sub @ post" using startswith_iff by blast
      then have "c # cs = [] @ sub @ post" by simp
      then show ?thesis by blast
    next
      case 2
      then obtain pre post where "cs = pre @ sub @ post" using Cons.IH by blast
      then have "c # cs = (c # pre) @ sub @ post" by simp
      then show ?thesis by blast
    qed
  next
    assume "\<exists>pre post. c # cs = pre @ sub @ post"
    then obtain pre post where e: "c # cs = pre @ sub @ post" by blast
    show "contains sub (c # cs)"
    proof (cases pre)
      case Nil
      then have "startswith sub (c # cs)" using e startswith_iff by auto
      then show ?thesis by simp
    next
      case (Cons p ps)
      then have "cs = ps @ sub @ post" using e by simp
      then have "contains sub cs" using Cons.IH by blast
      then show ?thesis by simp
    qed
  qed
qed

lemma endswith_LF: "endswith [LF] s \<longleftrightarrow> s \<noteq> [] \<and> last s = LF"
proof (cases s rule: rev_cases)
  case Nil
  then show ?thesis by (simp add: endswith_def)
next
  case (snoc ys y)
  then show ?thesis by (auto simp: endswith_def)
qed

subsection \<open>The comparison\<close>

text \<open>
  Claim C9. On the reference events \<open>read_burst(4)\<close> at 100 and \<open>write_burst(2)\<close> at 250 and
  the candidate events \<open>read_burst(4)\<close> at 105 and \<open>write_burst(2)\<close> at 240, the comparison
  prints row 0 with error 5, accumulated error 5 and category \<open>read_burst\<close> accumulated
  error 5, then row 1 with error -10, accumulated error 15 and category \<open>write_burst\<close>
  accumulated error 10; the final accumulators are 15, 5 and 10.
\<close>

theorem compare_scenario:
  "map_sum id (\<lambda>rep. (report_rows rep, final_accum_abs_err rep,
       dd_get (final_accum_by_type rep) ''read_burst'',
       dd_get (final_accum_by_type rep) ''write_burst''))
     (compare
       [\<lparr>pattern_name = ''read_burst(4)'', cycle = 100\<rparr>,
        \<lparr>pattern_name = ''write_burst(2)'', cycle = 250\<rparr>]
       [\<lparr>pattern_name = ''read_burst(4)'', cycle = 105\<rparr>,
        \<lparr>pattern_name = ''write_burst(2)'', cycle = 240\<rparr>])
   = Inr ([\<lparr>row_idx = 0, row_ttype = ''read_burst'', row_pattern = ''read_burst(4)'',
            row_rtl = 100, row_cyclotron = 105, row_error = 5,
            row_accum_abs_err = 5, row_accum_type_abs_err = 5\<rparr>,
          \<lparr>row_idx = 1, row_ttype = ''write_burst'', row_pattern = ''write_burst(2)'',
            row_rtl = 250, row_cyclotron = 240, row_error = - 10,
            row_accum_abs_err = 15, row_accum_type_abs_err = 10\<rparr>], 15, 5, 10)"
  by (simp add: compare_def traffic_type_def split_first_def dd_get_def Let_def)

lemma compare_loop_err:
  "compare_loop idx a m p zs = Inl e \<Longrightarrow>
   \<exists>i < length zs. e = OrderMismatch (idx + i) (pattern_name (fst (zs ! i))) (pattern_name (snd (zs ! i)))
      \<and> pattern_name (fst (zs ! i)) \<noteq> pattern_name (snd (zs ! i))
      \<and> (\<forall>j < i. pattern_name (fst (zs ! j)) = pattern_name (snd (zs ! j)))"
proof (induction zs arbitrary: idx a m p)
  case Nil
  then show ?case by simp
next
  case (Cons z zs)
  obtain r c where z: "z = (r, c)" by (cases z)
  show ?case
  proof (cases "pattern_name r = pattern_name c")
    case False
    then have "e = OrderMismatch idx (pattern_name r) (pattern_name c)"
      using Cons.prems z by simp
    then show ?thesis using False z by (intro exI[of _ 0]) simp
  next
    case True
    then obtain a' m' p' where "compare_loop (Suc idx) a' m' p' zs = Inl e"
      using Cons.prems z by (auto simp: Let_def)
    from Cons.IH[OF this] obtain i where i: "i < length zs"
      "e = OrderMismatch (Suc idx + i) (pattern_name (fst (zs ! i))) (pattern_name (snd (zs ! i)))"
      "pattern_name (fst (zs ! i)) \<noteq> pattern_name (snd (zs ! i))"
      "\<forall>j < i. pattern_name (fst (zs ! j)) = pattern_name (snd (zs ! j))" by blast
    have "\<forall>j < Suc i. pattern_name (fst ((z # zs) ! j)) = pattern_name (snd ((z # zs) ! j))"
      using i(4) True z by (auto simp: less_Suc_eq_0_disj)
    then show ?thesis using i(1,2,3) by (intro exI[of _ "Suc i"]) simp
  qed
qed

lemma compare_loop_Inr:
  "compare_loop idx a m p zs = Inr rep \<Longrightarrow>
   \<forall>(r, c) \<in> set zs. pattern_name r = pattern_name c"
proof (induction zs arbitrary: idx a m p)
  case Nil
  then show ?case by simp
next
  case (Cons z zs)
  obtain r c where z: "z = (r, c)" by (cases z)
  have eq: "pattern_name r = pattern_name c"
    using Cons.prems z by (auto split: if_splits)
  then obtain a' m' p' where "compare_loop (Suc idx) a' m' p' zs = Inr rep"
    using Cons.prems z by (auto simp: Let_def)
  from Cons.IH[OF this] show ?case using eq z by simp
qed

text \<open>
  Claim C3. The comparison fails with a count mismatch exactly when the two sequences
  differ in length, and with an order mismatch exactly when the lengths are equal and the
  names differ at some index; the two never come together, and with different lengths the
  result is the count mismatch whatever the events are.
\<close>

theorem compare_errors:
  "((\<exists>a b. compare ref cand = Inl (CountMismatch a b)) \<longleftrightarrow> length ref \<noteq> length cand)
   \<and> ((\<exists>i x y. compare ref cand = Inl (OrderMismatch i x y)) \<longleftrightarrow>
        (length ref = length cand
         \<and> (\<exists>i < length ref. pattern_name (ref ! i) \<noteq> pattern_name (cand ! i))))
   \<and> (length ref \<noteq> length cand \<longrightarrow>
        compare ref cand = Inl (CountMismatch (length ref) (length cand)))"
proof (cases "length ref = length cand")
  case False
  then show ?thesis by (simp add: compare_def)
next
  case True
  let ?zs = "zip ref cand"
  have c: "compare ref cand = compare_loop 0 0 Map.empty [] ?zs"
    using True by (simp add: compare_def)
  have nocount: "\<not> (\<exists>a b. compare ref cand = Inl (CountMismatch a b))"
  proof
    assume "\<exists>a b. compare ref cand = Inl (CountMismatch a b)"
    then obtain a b where "compare_loop 0 0 Map.empty [] ?zs = Inl (CountMismatch a b)"
      using c by auto
    from compare_loop_err[OF this] show False by auto
  qed
  have order: "(\<exists>i x y. compare ref cand = Inl (OrderMismatch i x y)) \<longleftrightarrow>
        (\<exists>i < length ref. pattern_name (ref ! i) \<noteq> pattern_name (cand ! i))"
  proof
    assume "\<exists>i x y. compare ref cand = Inl (OrderMismatch i x y)"
    then obtain e where "compare_loop 0 0 Map.empty [] ?zs = Inl e" using c by auto
    from compare_loop_err[OF this] obtain i where "i < length ?zs"
      "pattern_name (fst (?zs ! i)) \<noteq> pattern_name (snd (?zs ! i))" by blast
    then show "\<exists>i < length ref. pattern_name (ref ! i) \<noteq> pattern_name (cand ! i)"
      using True by auto
  next
    assume "\<exists>i < length ref. pattern_name (ref ! i) \<noteq> pattern_name (cand ! i)"
    then obtain i where i: "i < length ref" "pattern_name (ref ! i) \<noteq> pattern_name (cand ! i)"
      by blast
    have a: "\<not> (\<forall>(r, c) \<in> set ?zs. pattern_name r = pattern_name c)"
    proof
      assume a: "\<forall>(r, c) \<in> set ?zs. pattern_name r = pattern_name c"
      have "(ref ! i, cand ! i) \<in> set ?zs"
        using i(1) True by (metis in_set_zip fst_conv snd_conv)
      then show False using a i(2) by auto
    qed
    have "\<exists>e. compare_loop 0 0 Map.empty [] ?zs = Inl e"
    proof (rule ccontr)
      assume "\<not> ?thesis"
      then obtain rep where r: "compare_loop 0 0 Map.empty [] ?zs = Inr rep"
        by (cases "compare_loop 0 0 Map.empty [] ?zs") auto
      from compare_loop_Inr[OF r] a show False by blast
    qed
    then obtain e where e: "compare_loop 0 0 Map.empty [] ?zs = Inl e" by blast
    from compare_loop_err[OF e] show "\<exists>i x y. compare ref cand = Inl (OrderMismatch i x y)"
      using c e by auto
  qed
  show ?thesis using True nocount order by simp
qed

theorem compare_errors_witness:
  "length [\<lparr>pattern_name = ''a_0'', cycle = 1\<rparr>, \<lparr>pattern_name = ''foo_1'', cycle = 2\<rparr>]
     = length [\<lparr>pattern_name = ''a_0'', cycle = 1\<rparr>, \<lparr>pattern_name = ''bar_1'', cycle = 2\<rparr>]
   \<and> (\<exists>i x y. compare
         [\<lparr>pattern_name = ''a_0'', cycle = 1\<rparr>, \<lparr>pattern_name = ''foo_1'', cycle = 2\<rparr>]
         [\<lparr>pattern_name = ''a_0'', cycle = 1\<rparr>, \<lparr>pattern_name = ''bar_1'', cycle = 2\<rparr>]
       = Inl (OrderMismatch i x y))
   \<and> length [\<lparr>pattern_name = ''a_0'', cycle = 1\<rparr>] \<noteq> length ([] :: traffic_line list)
   \<and> compare [\<lparr>pattern_name = ''a_0'', cycle = 1\<rparr>] [] = Inl (CountMismatch 1 0)"
  using compare_errors[of
      "[\<lparr>pattern_name = ''a_0'', cycle = 1\<rparr>, \<lparr>pattern_name = ''foo_1'', cycle = 2\<rparr>]"
      "[\<lparr>pattern_name = ''a_0'', cycle = 1\<rparr>, \<lparr>pattern_name = ''bar_1'', cycle = 2\<rparr>]"]
    compare_errors[of "[\<lparr>pattern_name = ''a_0'', cycle = 1\<rparr>]" "[]"]
  by (simp add: compare_def Let_def)

subsection \<open>Appending the traffic table\<close>

text \<open>
  Claim C4. Appending fails with a duplicate section error exactly when the text
  \<open>[traffic]\<close> occurs somewhere in the document; the failure returns no document, and
  appending to the result of a successful append always fails.
\<close>

theorem append_duplicate:
  "(append_traffic_file_to_config doc f = Inl DuplicateSection
      \<longleftrightarrow> (\<exists>pre post. doc = pre @ ''[traffic]'' @ post))
   \<and> (\<forall>doc'. append_traffic_file_to_config doc f = Inr doc' \<longrightarrow>
         append_traffic_file_to_config doc' g = Inl DuplicateSection)"
proof
  show "append_traffic_file_to_config doc f = Inl DuplicateSection
      \<longleftrightarrow> (\<exists>pre post. doc = pre @ ''[traffic]'' @ post)"
    using contains_iff[of "''[traffic]''" doc]
    by (simp add: append_traffic_file_to_config_def Let_def)
next
  show "\<forall>doc'. append_traffic_file_to_config doc f = Inr doc' \<longrightarrow>
         append_traffic_file_to_config doc' g = Inl DuplicateSection"
  proof (intro allI impI)
    fix doc'
    assume a: "append_traffic_file_to_config doc f = Inr doc'"
    define t1 where "t1 = (if \<not> endswith [LF] doc then doc @ [LF] else doc)"
    have "doc' = (t1 @ [LF]) @ ''[traffic]'' @ ([LF] @ ''file = '' @ [DQ] @ f @ [DQ] @ [LF])"
      using a unfolding append_traffic_file_to_config_def t1_def Let_def
      by (auto split: if_splits)
    then have "contains ''[traffic]'' doc'" using contains_iff by blast
    then show "append_traffic_file_to_config doc' g = Inl DuplicateSection"
      by (simp add: append_traffic_file_to_config_def)
  qed
qed

theorem append_duplicate_witness:
  "append_traffic_file_to_config (''[sim]'' @ [LF] @ ''[traffic]'' @ [LF]) ''t.toml'' = Inl DuplicateSection
   \<and> append_traffic_file_to_config ''[sim]'' ''t.toml''
       = Inr (''[sim]'' @ [LF, LF] @ ''[traffic]'' @ [LF] @ ''file = '' @ [DQ] @ ''t.toml'' @ [DQ, LF])
   \<and> append_traffic_file_to_config
        (''[sim]'' @ [LF, LF] @ ''[traffic]'' @ [LF] @ ''file = '' @ [DQ] @ ''t.toml'' @ [DQ, LF]) ''u.toml''
       = Inl DuplicateSection"
  using append_duplicate[of "''[sim]''" "''t.toml''" "''u.toml''"]
  by (simp add: append_traffic_file_to_config_def startswith_def endswith_def LF_def DQ_def)

text \<open>
  Claim C2, as amended. For a document without the header, appending returns the
  document, a newline only if the document does not already end with one (newlines at
  its end are all kept), then a blank line, the header and the line \<open>file = "value"\<close>,
  each ended by a newline.
\<close>

theorem append_text:
  "\<not> contains ''[traffic]'' doc \<Longrightarrow>
   append_traffic_file_to_config doc v =
     Inr (doc @ (if endswith [LF] doc then [] else [LF]) @ [LF] @ ''[traffic]'' @ [LF]
            @ ''file = '' @ [DQ] @ v @ [DQ] @ [LF])"
  by (simp add: append_traffic_file_to_config_def Let_def)

text \<open>
  The claim as stated fails on a document that ends with two newlines: both are kept.
\<close>

theorem append_text_cex:
  "\<not> contains ''[traffic]'' (''a'' @ [LF, LF])
   \<and> append_traffic_file_to_config (''a'' @ [LF, LF]) ''x''
       \<noteq> Inr (appendSection_spec (''a'' @ [LF, LF]) ''x'')"
  by (simp add: append_traffic_file_to_config_def appendSection_spec_def ensure_one_newline_def
      startswith_def endswith_def LF_def DQ_def)

theorem append_text_witness:
  "\<not> contains ''[traffic]'' (''a'' @ [LF, LF])
   \<and> append_traffic_file_to_config (''a'' @ [LF, LF]) ''x''
       = Inr (''a'' @ [LF, LF, LF] @ ''[traffic]'' @ [LF] @ ''file = '' @ [DQ] @ ''x'' @ [DQ, LF])"
  using append_text[of "''a'' @ [LF, LF]" "''x''"]
  by (simp add: startswith_def endswith_def LF_def DQ_def)

subsection \<open>Categories\<close>

lemma split_first_decomp:
  "c \<in> set s \<Longrightarrow> \<exists>rest. s = split_first c s @ c # rest \<and> c \<notin> set (split_first c s)"
proof -
  assume a: "c \<in> set s"
  have "s = takeWhile (\<lambda>x. x \<noteq> c) s @ dropWhile (\<lambda>x. x \<noteq> c) s" by simp
  moreover have "dropWhile (\<lambda>x. x \<noteq> c) s \<noteq> []" using a by (simp add: dropWhile_eq_Nil_conv)
  moreover have "hd (dropWhile (\<lambda>x. x \<noteq> c) s) = c"
    using a hd_dropWhile[of "\<lambda>x. x \<noteq> c" s] by (auto simp: dropWhile_eq_Nil_conv)
  ultimately have "s = split_first c s @ c # tl (dropWhile (\<lambda>x. x \<noteq> c) s)"
    unfolding split_first_def by (metis list.collapse)
  moreover have "c \<notin> set (split_first c s)"
    unfolding split_first_def by (auto dest: set_takeWhileD)
  ultimately show ?thesis by blast
qed

lemma rsplit_first_decomp:
  "c \<in> set s \<Longrightarrow> \<exists>suf. s = rsplit_first c s @ c # suf \<and> c \<notin> set suf"
proof -
  assume a: "c \<in> set s"
  then have "c \<in> set (rev s)" by simp
  from split_first_decomp[OF this] obtain rest where
    r: "rev s = split_first c (rev s) @ c # rest" "c \<notin> set (split_first c (rev s))" by blast
  have "dropWhile (\<lambda>x. x \<noteq> c) (rev s) = c # rest"
    using r unfolding split_first_def
    by (metis append_eq_conv_conj append_take_drop_id takeWhile_dropWhile_id same_append_eq)
  then have "rsplit_first c s = rev rest" using a by (simp add: rsplit_first_def)
  moreover have "s = rev rest @ c # rev (split_first c (rev s))"
    using r(1) by (metis rev_append rev.simps(2) rev_rev_ident append.assoc append_Cons append_Nil)
  ultimately show ?thesis using r(2) by (metis set_rev)
qed

text \<open>
  Claim C8. The category of a name with a parenthesis is the text before the first
  parenthesis; of a name without parenthesis but with an underscore, the text before the
  last underscore; a name with neither is its own category. Two events add to the same
  per-category sum exactly when their categories are equal strings.
\<close>

theorem traffic_type_category:
  "(CHR ''('' \<in> set n \<longrightarrow>
      (\<exists>rest. n = traffic_type n @ CHR ''('' # rest) \<and> CHR ''('' \<notin> set (traffic_type n))
   \<and> (CHR ''('' \<notin> set n \<and> CHR ''_'' \<in> set n \<longrightarrow>
        (\<exists>suf. n = traffic_type n @ CHR ''_'' # suf \<and> CHR ''_'' \<notin> set suf))
   \<and> (CHR ''('' \<notin> set n \<and> CHR ''_'' \<notin> set n \<longrightarrow> traffic_type n = n)
   \<and> map_sum id (\<lambda>rep. map row_accum_type_abs_err (report_rows rep))
        (compare [\<lparr>pattern_name = n, cycle = a\<rparr>, \<lparr>pattern_name = n', cycle = a'\<rparr>]
                 [\<lparr>pattern_name = n, cycle = b\<rparr>, \<lparr>pattern_name = n', cycle = b'\<rparr>])
      = Inr [\<bar>b - a\<bar>,
             if traffic_type n' = traffic_type n then \<bar>b - a\<bar> + \<bar>b' - a'\<bar> else \<bar>b' - a'\<bar>]"
proof (intro conjI impI)
  assume "CHR ''('' \<in> set n"
  then show "\<exists>rest. n = traffic_type n @ CHR ''('' # rest"
    and "CHR ''('' \<notin> set (traffic_type n)"
    using split_first_decomp[of "CHR ''(''" n] by (auto simp: traffic_type_def)
next
  assume "CHR ''('' \<notin> set n \<and> CHR ''_'' \<in> set n"
  then show "\<exists>suf. n = traffic_type n @ CHR ''_'' # suf \<and> CHR ''_'' \<notin> set suf"
    using rsplit_first_decomp[of "CHR ''_''" n] by (simp add: traffic_type_def)
next
  assume "CHR ''('' \<notin> set n \<and> CHR ''_'' \<notin> set n"
  then show "traffic_type n = n" by (simp add: traffic_type_def rsplit_first_def)
next
  show "map_sum id (\<lambda>rep. map row_accum_type_abs_err (report_rows rep))
        (compare [\<lparr>pattern_name = n, cycle = a\<rparr>, \<lparr>pattern_name = n', cycle = a'\<rparr>]
                 [\<lparr>pattern_name = n, cycle = b\<rparr>, \<lparr>pattern_name = n', cycle = b'\<rparr>])
      = Inr [\<bar>b - a\<bar>,
             if traffic_type n' = traffic_type n then \<bar>b - a\<bar> + \<bar>b' - a'\<bar> else \<bar>b' - a'\<bar>]"
    by (simp add: compare_def Let_def dd_get_def)
qed

theorem traffic_type_category_witness:
  "CHR ''('' \<in> set ''read_burst(4)'' \<and> traffic_type ''read_burst(4)'' = ''read_burst''
   \<and> CHR ''('' \<notin> set ''write_scatter_7'' \<and> CHR ''_'' \<in> set ''write_scatter_7''
   \<and> traffic_type ''write_scatter_7'' = ''write_scatter''
   \<and> CHR ''('' \<notin> set ''idle'' \<and> CHR ''_'' \<notin> set ''idle'' \<and> traffic_type ''idle'' = ''idle''"
  using traffic_type_category[of "''read_burst(4)''" 0 "''read_burst(4)''" 0 0 0]
    traffic_type_category[of "''write_scatter_7''" 0 "''write_scatter_7''" 0 0 0]
    traffic_type_category[of "''idle''" 0 "''idle''" 0 0 0]
  by (simp add: traffic_type_def split_first_def rsplit_first_def)

subsection \<open>The pattern and the parser\<close>

lemma cuts_iff: "(a, r) \<in> set (cuts ns s) \<longleftrightarrow> (\<exists>n \<in> set ns. a = take n s \<and> r = drop n s)"
  by (auto simp: cuts_def)

lemma take_run:
  assumes "n \<le> length (takeWhile P s)"
  shows "\<forall>c \<in> set (take n s). P c"
proof -
  have "take n s = take n (takeWhile P s)"
    using assms by (metis takeWhile_dropWhile_id take_append diff_is_0_eq take_0 append_Nil2)
  then show ?thesis by (metis in_set_takeD set_takeWhileD)
qed

lemma run_take:
  assumes "\<forall>c \<in> set a. P c"
  shows "length a \<le> length (takeWhile P (a @ r))"
  using assms by (simp add: takeWhile_append2)



lemma greedy_star_iff:
  "(a, r) \<in> set (greedy_star P s) \<longleftrightarrow> s = a @ r \<and> (\<forall>c \<in> set a. P c)"
proof
  assume "(a, r) \<in> set (greedy_star P s)"
  then obtain n where m: "n \<in> set (rev [0 ..< Suc (length (takeWhile P s))])"
    and n: "a = take n s" "r = drop n s"
    unfolding greedy_star_def cuts_iff by blast
  have "n \<le> length (takeWhile P s)" using m by auto
  from take_run[OF this] show "s = a @ r \<and> (\<forall>c \<in> set a. P c)"
    using n by simp
next
  assume a: "s = a @ r \<and> (\<forall>c \<in> set a. P c)"
  then have "length a \<le> length (takeWhile P s)" using run_take by blast
  then have "length a \<in> set (rev [0 ..< Suc (length (takeWhile P s))])" by auto
  moreover have "a = take (length a) s" "r = drop (length a) s" using a by auto
  ultimately show "(a, r) \<in> set (greedy_star P s)"
    unfolding greedy_star_def cuts_iff by blast
qed

lemma lit_iff: "(a, r) \<in> set (lit p s) \<longleftrightarrow> a = p \<and> s = p @ r"
  by (auto simp: lit_def startswith_iff)











subsection \<open>Lines and line boundaries\<close>

lemma LF_linebreak: "is_linebreak LF" "LF \<noteq> CR"
  by (simp_all add: is_linebreak_def LF_def CR_def)

lemma splitlines_aux_char:
  "\<not> is_linebreak c \<Longrightarrow> splitlines_aux cur (c # rest) = splitlines_aux (cur @ [c]) rest"
  by (cases rest) (auto simp: is_linebreak_def CR_def)

lemma splitlines_aux_LF:
  "splitlines_aux cur (LF # rest) = cur # splitlines_aux [] rest"
  using LF_linebreak by (cases rest) auto

lemma splitlines_aux_run:
  "linefree x \<Longrightarrow> splitlines_aux cur (x @ rest) = splitlines_aux (cur @ x) rest"
  by (induction x arbitrary: cur) (auto simp: linefree_def splitlines_aux_char)

lemma linefree_Nil: "linefree []"
  by (simp add: linefree_def)

lemma linefree_snoc: "linefree (cur @ [c]) \<longleftrightarrow> linefree cur \<and> \<not> is_linebreak c"
  by (auto simp: linefree_def)

lemma splitlines_aux_linefree:
  "linefree cur \<Longrightarrow> \<forall>l \<in> set (splitlines_aux cur s). linefree l"
proof (induction cur s rule: splitlines_aux.induct)
  case (1 cur)
  then show ?case by simp
next
  case (2 cur c)
  then show ?case by (simp add: linefree_snoc)
next
  case (3 cur c d cs)
  show ?case
  proof (cases "c = CR \<and> d = LF")
    case True
    then show ?thesis using 3(1)[OF True linefree_Nil] 3(4) by simp
  next
    case False
    show ?thesis
    proof (cases "is_linebreak c")
      case True
      then show ?thesis using False 3(2)[OF False True linefree_Nil] 3(4) by auto
    next
      case nb: False
      have "linefree (cur @ [c])" using 3(4) nb by (simp add: linefree_snoc)
      from 3(3)[OF False nb this] show ?thesis using False nb by auto
    qed
  qed
qed

lemma splitlines_linefree: "\<forall>l \<in> set (splitlines s). linefree l"
  using splitlines_aux_linefree[OF linefree_Nil, of s] by (simp add: splitlines_def)

lemma splitlines_aux_nonempty: "s \<noteq> [] \<Longrightarrow> splitlines_aux cur s \<noteq> []"
proof (induction cur s rule: splitlines_aux.induct)
  case (1 cur)
  then show ?case by simp
next
  case (2 cur c)
  then show ?case by simp
next
  case (3 cur c d cs)
  show ?case
  proof (cases "c = CR \<and> d = LF")
    case True
    then show ?thesis by simp
  next
    case False
    show ?thesis
    proof (cases "is_linebreak c")
      case True
      then show ?thesis using False by auto
    next
      case nb: False
      have "splitlines_aux (cur @ [c]) (d # cs) \<noteq> []" using 3(3)[OF False nb] by simp
      then show ?thesis using False nb by auto
    qed
  qed
qed

lemma join_nl_Cons: "join_nl (x # xs) = (if xs = [] then x else x @ LF # join_nl xs)"
  by (cases xs) auto

lemma splitlines_join_LF:
  "\<forall>l \<in> set xs. linefree l \<Longrightarrow> xs \<noteq> [] \<Longrightarrow> splitlines (join_nl xs @ [LF]) = xs"
proof (induction xs)
  case Nil
  then show ?case by simp
next
  case (Cons x xs)
  have x: "linefree x" using Cons.prems by simp
  show ?case
  proof (cases "xs = []")
    case True
    have "splitlines_aux [] (x @ [LF]) = splitlines_aux x [LF]"
      using splitlines_aux_run[OF x, of "[]" "[LF]"] by simp
    also have "\<dots> = [x]" by (simp add: LF_linebreak)
    finally show ?thesis using True by (simp add: splitlines_def)
  next
    case False
    then have ih: "splitlines_aux [] (join_nl xs @ [LF]) = xs"
      using Cons by (simp add: splitlines_def)
    have "splitlines_aux [] (x @ LF # join_nl xs @ [LF]) = splitlines_aux x (LF # join_nl xs @ [LF])"
      using splitlines_aux_run[OF x, of "[]"] by simp
    then show ?thesis using False ih
      by (simp add: splitlines_def join_nl_Cons splitlines_aux_LF)
  qed
qed

lemma splitlines_join:
  "\<forall>l \<in> set xs. linefree l \<Longrightarrow>
   splitlines (join_nl xs) = (if xs \<noteq> [] \<and> last xs = [] then butlast xs else xs)"
proof (induction xs)
  case Nil
  then show ?case by (simp add: splitlines_def)
next
  case (Cons x xs)
  have x: "linefree x" using Cons.prems by simp
  show ?case
  proof (cases "xs = []")
    case True
    have "splitlines_aux [] (x @ []) = splitlines_aux x []"
      using splitlines_aux_run[OF x, of "[]" "[]"] by simp
    then show ?thesis using True by (simp add: splitlines_def)
  next
    case False
    have ih: "splitlines_aux [] (join_nl xs) = (if last xs = [] then butlast xs else xs)"
      using Cons False by (simp add: splitlines_def)
    have "splitlines_aux [] (x @ LF # join_nl xs) = splitlines_aux x (LF # join_nl xs)"
      using splitlines_aux_run[OF x, of "[]"] by simp
    then show ?thesis using False ih
      by (simp add: splitlines_def join_nl_Cons splitlines_aux_LF)
  qed
qed

lemma join_nl_snoc: "xs \<noteq> [] \<Longrightarrow> join_nl (xs @ [y]) = join_nl xs @ LF # y"
  by (induction xs rule: join_nl.induct) auto

lemma join_nl_last:
  "xs \<noteq> [] \<Longrightarrow> last xs \<noteq> [] \<Longrightarrow> join_nl xs \<noteq> [] \<and> last (join_nl xs) = last (last xs)"
  by (induction xs rule: join_nl.induct) auto


subsection \<open>The two loops of the timeout override\<close>

lemma replace_loop_eq:
  "replace_loop t b r out ls = (out @ replace_lines t b ls, r \<or> any_replaced b ls)"
  by (induction ls arbitrary: b r out) (auto simp: Let_def is_header_def)

lemma insert_loop_eq:
  "insert_loop t s i acc ls = acc @ insert_lines t s i ls"
  by (induction ls arbitrary: s i acc) (auto simp: Let_def is_header_def)

lemma override_lines_eq:
  "override_lines t ls =
     (if any_replaced False ls then replace_lines t False ls
      else insert_lines t False False (replace_lines t False ls))"
  by (simp add: override_lines_def replace_loop_eq insert_loop_eq)

lemma length_replace_lines: "length (replace_lines t b ls) = length ls"
  by (induction ls arbitrary: b) auto

lemma replace_lines_nth:
  "i < length ls \<Longrightarrow>
   replace_lines t b ls ! i =
     (if \<not> is_header (strip (ls ! i)) \<and> in_sim_after b (take i ls)
          \<and> startswith ''timeout'' (strip (ls ! i))
      then timeout_line t else ls ! i)"
proof (induction ls arbitrary: b i)
  case Nil
  then show ?case by simp
next
  case (Cons l ls)
  show ?case
  proof (cases i)
    case 0
    then show ?thesis by simp
  next
    case (Suc j)
    then have j: "j < length ls" using Cons.prems by simp
    show ?thesis
    proof (cases "is_header (strip l)")
      case True
      then show ?thesis using Suc Cons.IH[OF j, of "strip l = ''[sim]''"] by simp
    next
      case False
      then show ?thesis using Suc Cons.IH[OF j, of b] by (cases b) simp_all
    qed
  qed
qed

lemma any_replaced_iff:
  "any_replaced b ls \<longleftrightarrow>
     (\<exists>i < length ls. \<not> is_header (strip (ls ! i)) \<and> in_sim_after b (take i ls)
          \<and> startswith ''timeout'' (strip (ls ! i)))"
proof (induction ls arbitrary: b)
  case Nil
  then show ?case by simp
next
  case (Cons l ls)
  let ?P = "\<lambda>b ls i. \<not> is_header (strip (ls ! i)) \<and> in_sim_after b (take i ls)
          \<and> startswith ''timeout'' (strip (ls ! i))"
  let ?b' = "if is_header (strip l) then strip l = ''[sim]'' else b"
  have step: "(\<exists>i < length (l # ls). ?P b (l # ls) i) \<longleftrightarrow>
        ?P b (l # ls) 0 \<or> (\<exists>j < length ls. ?P ?b' ls j)"
  proof
    assume "\<exists>i < length (l # ls). ?P b (l # ls) i"
    then obtain i where i: "i < length (l # ls)" "?P b (l # ls) i" by blast
    show "?P b (l # ls) 0 \<or> (\<exists>j < length ls. ?P ?b' ls j)"
    proof (cases i)
      case 0
      then show ?thesis using i by simp
    next
      case (Suc j)
      then have "j < length ls" "?P ?b' ls j" using i by auto
      then show ?thesis by blast
    qed
  next
    assume "?P b (l # ls) 0 \<or> (\<exists>j < length ls. ?P ?b' ls j)"
    then show "\<exists>i < length (l # ls). ?P b (l # ls) i"
    proof
      assume "?P b (l # ls) 0"
      then show ?thesis by (intro exI[of _ 0]) simp
    next
      assume "\<exists>j < length ls. ?P ?b' ls j"
      then obtain j where "j < length ls" "?P ?b' ls j" by blast
      then show ?thesis by (intro exI[of _ "Suc j"]) simp
    qed
  qed
  show ?case unfolding step using Cons.IH[of ?b'] by auto
qed

subsection \<open>The timeout line\<close>

lemma digit_char_in: "is_digit (digit_char d)"
proof -
  have "d mod 10 < length ''0123456789''" by simp
  then have "''0123456789'' ! (d mod 10) \<in> set ''0123456789''" by (rule nth_mem)
  then show ?thesis unfolding digit_char_def is_digit_def .
qed

lemma str_nat_chars: "str_nat n \<noteq> [] \<and> (\<forall>c \<in> set (str_nat n). is_digit c)"
proof (induction n rule: str_nat.induct)
  case (1 n)
  show ?case
  proof (cases "n < 10")
    case True
    then have "str_nat n = [digit_char n]" by (subst str_nat.simps) simp
    then show ?thesis using digit_char_in[of n] by simp
  next
    case False
    then have "str_nat n = str_nat (n div 10) @ [digit_char (n mod 10)]"
      by (subst str_nat.simps) simp
    then show ?thesis using 1[OF False] digit_char_in[of "n mod 10"] by simp
  qed
qed

lemma str_nat_last: "is_digit (last (str_nat n))"
  using str_nat_chars[of n] last_in_set[of "str_nat n"] by blast

lemma digit_not_space: "is_digit c \<Longrightarrow> \<not> is_space c \<and> \<not> is_linebreak c"
  by (auto simp: is_digit_def is_space_def is_linebreak_def)

lemma str_int_chars:
  "str_int i \<noteq> [] \<and> (\<forall>c \<in> set (str_int i). \<not> is_linebreak c)
   \<and> \<not> is_space (last (str_int i))"
proof (cases "i < 0")
  case True
  then have e: "str_int i = CHR ''-'' # str_nat (nat (- i))" by (simp add: str_int_def)
  have "\<not> is_linebreak (CHR ''-'')" by (simp add: is_linebreak_def)
  moreover have "last (str_int i) = last (str_nat (nat (- i)))"
    using e str_nat_chars[of "nat (- i)"] by simp
  ultimately show ?thesis
    using e str_nat_chars[of "nat (- i)"] str_nat_last[of "nat (- i)"] digit_not_space
    by auto
next
  case False
  then have e: "str_int i = str_nat (nat i)" by (simp add: str_int_def)
  show ?thesis
    using e str_nat_chars[of "nat i"] str_nat_last[of "nat i"] digit_not_space by auto
qed

lemma timeout_line_linefree: "linefree (timeout_line t)"
proof -
  have "\<forall>c \<in> set ''timeout = ''. \<not> is_linebreak c" by (simp add: is_linebreak_def)
  then show ?thesis using str_int_chars[of t] unfolding linefree_def timeout_line_def by auto
qed

lemma strip_id:
  assumes "s \<noteq> []" "\<not> is_space (hd s)" "\<not> is_space (last s)"
  shows "strip s = s"
proof -
  have a: "dropWhile is_space s = s" using assms(1,2) by (cases s) auto
  have "rev s \<noteq> []" "\<not> is_space (hd (rev s))" using assms by (simp_all add: hd_rev)
  then have "dropWhile is_space (rev s) = rev s" by (cases "rev s") auto
  then show ?thesis using a by (simp add: strip_def)
qed

lemma strip_timeout_line: "strip (timeout_line t) = timeout_line t"
proof (rule strip_id)
  show "timeout_line t \<noteq> []" by (simp add: timeout_line_def)
  show "\<not> is_space (hd (timeout_line t))" by (simp add: timeout_line_def is_space_def)
  have "last (timeout_line t) = last (str_int t)"
    using str_int_chars[of t] by (simp add: timeout_line_def)
  then show "\<not> is_space (last (timeout_line t))" using str_int_chars[of t] by simp
qed

lemma timeout_line_props:
  "\<not> is_header (strip (timeout_line t))"
  "startswith ''timeout'' (strip (timeout_line t))"
  "strip (timeout_line t) \<noteq> ''[sim]''"
  "timeout_line t \<noteq> []"
  unfolding strip_timeout_line
  by (simp_all add: timeout_line_def is_header_def startswith_def)

lemma sim_is_header: "strip l = ''[sim]'' \<Longrightarrow> is_header (strip l)"
  by (simp add: is_header_def startswith_def endswith_def)

subsection \<open>The override applied to its own result, on lines\<close>

lemma replace_lines_idem:
  "replace_lines t b (replace_lines t b ls) = replace_lines t b ls"
  by (induction ls arbitrary: b) (simp_all add: timeout_line_props)

lemma any_replaced_replace_lines:
  "any_replaced b (replace_lines t b ls) = any_replaced b ls"
  by (induction ls arbitrary: b) (simp_all add: timeout_line_props)

lemma replace_lines_id: "\<not> any_replaced b ls \<Longrightarrow> replace_lines t b ls = ls"
proof (induction ls arbitrary: b)
  case Nil
  then show ?case by simp
next
  case (Cons l ls)
  show ?case
  proof (cases "is_header (strip l)")
    case True
    then show ?thesis using Cons.prems Cons.IH[of "strip l = ''[sim]''"] by simp
  next
    case False
    then show ?thesis using Cons.prems Cons.IH[of b] by (cases "b \<and> startswith ''timeout'' (strip l)") auto
  qed
qed

lemma insert_lines_done: "insert_lines t s True ls = ls"
  by (induction ls arbitrary: s) simp_all

lemma insert_in_sim:
  "\<not> any_replaced True ls \<Longrightarrow>
   replace_lines t True (insert_lines t True False ls) = insert_lines t True False ls
   \<and> any_replaced True (insert_lines t True False ls)"
proof (induction ls)
  case Nil
  then show ?case by (simp add: timeout_line_props)
next
  case (Cons l ls)
  show ?case
  proof (cases "strip l = ''[sim]''")
    case True
    then have h: "is_header (strip l)" by (rule sim_is_header)
    then have "\<not> any_replaced True ls" using Cons.prems True by simp
    from Cons.IH[OF this] show ?thesis using True h by simp
  next
    case False
    show ?thesis
    proof (cases "is_header (strip l)")
      case True
      then have "\<not> any_replaced False ls" using Cons.prems False by simp
      then have "replace_lines t False ls = ls" by (rule replace_lines_id)
      then show ?thesis using True False
        by (simp add: timeout_line_props insert_lines_done)
    next
      case nh: False
      then have n: "\<not> startswith ''timeout'' (strip l)" "\<not> any_replaced True ls"
        using Cons.prems by (auto split: if_splits)
      from Cons.IH[OF n(2)] show ?thesis using False nh n(1) by simp
    qed
  qed
qed

lemma insert_outside:
  "\<not> any_replaced False ls \<Longrightarrow>
   replace_lines t False (insert_lines t False False ls) = insert_lines t False False ls
   \<and> (any_replaced False (insert_lines t False False ls)
        \<or> insert_lines t False False ls = ls)"
proof (induction ls)
  case Nil
  then show ?case by simp
next
  case (Cons l ls)
  show ?case
  proof (cases "strip l = ''[sim]''")
    case True
    then have h: "is_header (strip l)" by (rule sim_is_header)
    then have "\<not> any_replaced True ls" using Cons.prems True by simp
    from insert_in_sim[OF this, of t] show ?thesis using True h by simp
  next
    case False
    then have "\<not> any_replaced False ls" using Cons.prems by (auto split: if_splits)
    from Cons.IH[OF this] show ?thesis using False by auto
  qed
qed

lemma override_lines_idem: "override_lines t (override_lines t ls) = override_lines t ls"
proof (cases "any_replaced False ls")
  case True
  then show ?thesis
    by (simp add: override_lines_eq any_replaced_replace_lines replace_lines_idem)
next
  case False
  then have r: "replace_lines t False ls = ls" by (rule replace_lines_id)
  then have o: "override_lines t ls = insert_lines t False False ls"
    using False by (simp add: override_lines_eq)
  from insert_outside[OF False, of t]
  have a: "replace_lines t False (insert_lines t False False ls) = insert_lines t False False ls"
    and b: "any_replaced False (insert_lines t False False ls)
        \<or> insert_lines t False False ls = ls" by auto
  from b show ?thesis
  proof
    assume "any_replaced False (insert_lines t False False ls)"
    then show ?thesis using o a by (simp add: override_lines_eq)
  next
    assume "insert_lines t False False ls = ls"
    then show ?thesis using o by simp
  qed
qed

lemma replace_lines_snoc_empty:
  "replace_lines t b (xs @ [[]]) = replace_lines t b xs @ [[]]
   \<and> any_replaced b (xs @ [[]]) = any_replaced b xs"
  by (induction xs arbitrary: b)
     (simp_all add: strip_def is_header_def startswith_def endswith_def)

lemma insert_lines_snoc_empty:
  "insert_lines t s i (xs @ [[]]) = xs @ [[]] \<Longrightarrow> insert_lines t s i xs = xs"
proof (induction xs arbitrary: s i)
  case Nil
  then show ?case by (auto simp: strip_def is_header_def startswith_def split: if_splits)
next
  case (Cons x xs)
  show ?case
  proof (cases "strip x = ''[sim]''")
    case True
    then show ?thesis using Cons.prems Cons.IH[of True i] by simp
  next
    case False
    show ?thesis
    proof (cases "s \<and> is_header (strip x) \<and> \<not> i")
      case True
      then have "timeout_line t = x" using Cons.prems False by simp
      then show ?thesis using True timeout_line_props(1)[of t] by simp
    next
      case ni: False
      then have "insert_lines t s i (xs @ [[]]) = xs @ [[]]" using Cons.prems False by auto
      from Cons.IH[OF this] show ?thesis using False ni by auto
    qed
  qed
qed

lemma override_lines_snoc_empty:
  assumes "override_lines t (xs @ [[]]) = xs @ [[]]"
  shows "override_lines t xs = xs"
proof (cases "any_replaced False xs")
  case True
  then have "replace_lines t False xs @ [[]] = xs @ [[]]"
    using assms replace_lines_snoc_empty[of t False xs] by (simp add: override_lines_eq)
  then show ?thesis using True by (simp add: override_lines_eq)
next
  case False
  then have r: "replace_lines t False xs = xs" by (rule replace_lines_id)
  have "insert_lines t False False (xs @ [[]]) = xs @ [[]]"
    using assms False r replace_lines_snoc_empty[of t False xs] by (simp add: override_lines_eq)
  then have "insert_lines t False False xs = xs" by (rule insert_lines_snoc_empty)
  then show ?thesis using False r by (simp add: override_lines_eq)
qed

lemma set_replace_lines: "set (replace_lines t b ls) \<subseteq> insert (timeout_line t) (set ls)"
  by (induction ls arbitrary: b) auto

lemma set_insert_lines: "set (insert_lines t s i ls) \<subseteq> insert (timeout_line t) (set ls)"
  by (induction ls arbitrary: s i) auto

lemma set_override_lines: "set (override_lines t ls) \<subseteq> insert (timeout_line t) (set ls)"
  using set_replace_lines[of t False ls]
    set_insert_lines[of t False False "replace_lines t False ls"]
  by (auto simp: override_lines_eq)

lemma override_lines_Nil_iff: "override_lines t ls = [] \<Longrightarrow> ls = []"
proof (cases ls)
  case Nil
  then show ?thesis by simp
next
  case (Cons l ls')
  assume "override_lines t ls = []"
  then show ?thesis using Cons
    by (auto simp: override_lines_eq split: if_splits)
qed

lemma override_lines_linefree:
  "\<forall>l \<in> set ls. linefree l \<Longrightarrow> \<forall>l \<in> set (override_lines t ls). linefree l"
  using set_override_lines[of t ls] timeout_line_linefree[of t] by auto

lemma override_text_Nil: "override_sim_timeout [] t = []"
  by (simp add: override_sim_timeout_def splitlines_def override_lines_eq endswith_def)




subsection \<open>The timeout override\<close>

lemmas eval_text = override_sim_timeout_def override_lines_def splitlines_def strip_def
  startswith_def endswith_def timeout_line_def str_int_def str_nat.simps digit_char_def
  is_space_def is_linebreak_def LF_def CR_def Let_def

text \<open>
  Claim C1, as amended. The first loop keeps the number and the order of the lines and
  replaces every line that is not a header, stands in the \<open>[sim]\<close> section and
  starts, trimmed, with \<open>timeout\<close> by \<open>timeout = value\<close> (every such line, not
  only the first); every other line is unchanged, and \<open>replaced\<close> tells whether there
  was such a line.
\<close>

theorem replace_loop_every:
  "length (fst (replace_loop t False False [] lines)) = length lines
   \<and> (\<forall>i < length lines.
         fst (replace_loop t False False [] lines) ! i
           = (if is_target (take i lines) (lines ! i) then timeout_line t else lines ! i))
   \<and> (snd (replace_loop t False False [] lines)
         \<longleftrightarrow> (\<exists>i < length lines. is_target (take i lines) (lines ! i)))"
  using replace_lines_nth[of _ lines t False] any_replaced_iff[of False lines]
  by (simp add: replace_loop_eq length_replace_lines is_target_def)

text \<open>
  The claim as stated fails on a section with two timeout lines: the second one is
  replaced as well, where a loop that stops at the first replacement would keep it.
\<close>

theorem replace_loop_every_cex:
  "fst (replace_loop 5 False False [] [''[sim]'', ''timeout = 1'', ''timeout = 2''])
     = [''[sim]'', ''timeout = 5'', ''timeout = 5'']
   \<and> fst (replace_first_loop 5 False False [] [''[sim]'', ''timeout = 1'', ''timeout = 2''])
     = [''[sim]'', ''timeout = 5'', ''timeout = 2'']
   \<and> override_sim_timeout
        (''[sim]'' @ [LF] @ ''timeout = 1'' @ [LF] @ ''timeout = 2'' @ [LF]) 5
     = ''[sim]'' @ [LF] @ ''timeout = 5'' @ [LF] @ ''timeout = 5'' @ [LF]"
  by (simp add: eval_text)

theorem replace_loop_every_witness:
  "(2::nat) < length [''[sim]'', ''timeout = 1'', ''timeout = 2'']
   \<and> is_target (take 2 [''[sim]'', ''timeout = 1'', ''timeout = 2''])
        ([''[sim]'', ''timeout = 1'', ''timeout = 2''] ! 2)
   \<and> fst (replace_loop 5 False False [] [''[sim]'', ''timeout = 1'', ''timeout = 2'']) ! 2
        = ''timeout = 5''
   \<and> snd (replace_loop 5 False False [] [''[sim]'', ''timeout = 1'', ''timeout = 2''])"
  using replace_loop_every[of 5 "[''[sim]'', ''timeout = 1'', ''timeout = 2'']"]
  by (simp add: eval_text is_target_def is_header_def)




text \<open>
  Claim C6. The override is idempotent: applied to its own result with the same value,
  it returns that result.
\<close>

theorem override_idempotent:
  "override_sim_timeout (override_sim_timeout doc t) t = override_sim_timeout doc t"
proof -
  define out where "out = override_lines t (splitlines doc)"
  have lf: "\<forall>l \<in> set out. linefree l"
    unfolding out_def using override_lines_linefree splitlines_linefree by blast
  have idem: "override_lines t out = out" unfolding out_def by (rule override_lines_idem)
  show ?thesis
  proof (cases "endswith [LF] doc")
    case True
    then have "doc \<noteq> []" by (simp add: endswith_LF)
    then have "splitlines doc \<noteq> []" unfolding splitlines_def by (rule splitlines_aux_nonempty)
    then have ne: "out \<noteq> []" unfolding out_def using override_lines_Nil_iff by blast
    have r1: "override_sim_timeout doc t = join_nl out @ [LF]"
      using True by (simp add: override_sim_timeout_def out_def)
    have "splitlines (join_nl out @ [LF]) = out" using lf ne by (rule splitlines_join_LF)
    moreover have "endswith [LF] (join_nl out @ [LF])" by (simp add: endswith_LF)
    ultimately have "override_sim_timeout (join_nl out @ [LF]) t = join_nl out @ [LF]"
      using idem by (simp add: override_sim_timeout_def)
    then show ?thesis using r1 by simp
  next
    case False
    then have r1: "override_sim_timeout doc t = join_nl out"
      by (simp add: override_sim_timeout_def out_def)
    have sp: "splitlines (join_nl out) = (if out \<noteq> [] \<and> last out = [] then butlast out else out)"
      using lf by (rule splitlines_join)
    have "override_sim_timeout (join_nl out) t = join_nl out"
    proof (cases "out = []")
      case True
      then show ?thesis by (simp add: override_text_Nil)
    next
      case ne: False
      show ?thesis
      proof (cases "last out = []")
        case nl: False
        have l: "join_nl out \<noteq> [] \<and> last (join_nl out) = last (last out)"
          using ne nl by (rule join_nl_last)
        have "last out \<in> set out" using ne by simp
        then have "linefree (last out)" using lf by blast
        moreover have "last (last out) \<in> set (last out)" using nl by simp
        ultimately have "\<not> is_linebreak (last (last out))" unfolding linefree_def by blast
        then have "last (join_nl out) \<noteq> LF" using l LF_linebreak(1) by auto
        then have "\<not> endswith [LF] (join_nl out)" by (simp add: endswith_LF)
        then show ?thesis using sp ne nl idem by (simp add: override_sim_timeout_def)
      next
        case True
        define xs where "xs = butlast out"
        have o: "out = xs @ [[]]" unfolding xs_def using ne True
          by (metis append_butlast_last_id)
        show ?thesis
        proof (cases "xs = []")
          case True
          then show ?thesis using o by (simp add: override_text_Nil)
        next
          case xne: False
          have j: "join_nl out = join_nl xs @ [LF]" using o xne by (simp add: join_nl_snoc)
          have "override_lines t (xs @ [[]]) = xs @ [[]]" using idem o by simp
          then have x: "override_lines t xs = xs" by (rule override_lines_snoc_empty)
          have "splitlines (join_nl out) = xs" using sp o by simp
          moreover have "endswith [LF] (join_nl out)" using j by (simp add: endswith_LF)
          ultimately show ?thesis using x j by (simp add: override_sim_timeout_def)
        qed
      qed
    qed
    then show ?thesis using r1 by simp
  qed
qed

theorem override_idempotent_witness:
  "override_sim_timeout (''[sim]'' @ [LF] @ ''x = 1'' @ [LF] @ ''[a]'' @ [LF]) 50
     = ''[sim]'' @ [LF] @ ''x = 1'' @ [LF] @ ''timeout = 50'' @ [LF] @ ''[a]'' @ [LF]
   \<and> override_sim_timeout
        (''[sim]'' @ [LF] @ ''x = 1'' @ [LF] @ ''timeout = 50'' @ [LF] @ ''[a]'' @ [LF]) 50
     = ''[sim]'' @ [LF] @ ''x = 1'' @ [LF] @ ''timeout = 50'' @ [LF] @ ''[a]'' @ [LF]"
  using override_idempotent[of "''[sim]'' @ [LF] @ ''x = 1'' @ [LF] @ ''[a]'' @ [LF]" 50]
  by (simp add: eval_text)

end
